theory Spec2Isabelle
  imports Main "HOL-Library.AList"
begin

section \<open>Data model\<close>

text \<open>
  An alignment record as the program reads it from the input stream: the attributes of
  the pysam record that the source accesses. \<open>aligned_pairs\<close> is the value of
  \<^verbatim>\<open>get_aligned_pairs(matches_only=True)\<close>: pairs of a query offset and a reference
  offset. The reference offset is optional because \<^verbatim>\<open>get_read_seqs\<close> tests it against
  \<^verbatim>\<open>None\<close>.
\<close>

record read =
  qname :: string
  seq :: string
  qual :: string
  reference_name :: string
  pos :: int
  is_reverse :: bool
  is_read1 :: bool
  is_read2 :: bool
  is_proper_pair :: bool
  aligned_pairs :: "(nat \<times> nat option) list"

text \<open>The keys of the \<^verbatim>\<open>Counter\<close> of dispositions; a missing key counts as zero.\<close>

datatype disposition =
  toss_indel | toss_manysnps | toss_anomalous_phase | no_snps | has_snps
  | ref_match | no_match | not_proper_pair

type_synonym dispositions = "disposition \<Rightarrow> nat"

definition bump :: "disposition \<Rightarrow> dispositions \<Rightarrow> dispositions" where
  "bump k d = d(k := d k + 1)"

text \<open>
  \<^verbatim>\<open>snp_dict[chrom]\<close> is a dictionary from position to allele string (a
  \<^verbatim>\<open>defaultdict(dict)\<close>: an unknown chromosome has no entries);
  \<^verbatim>\<open>indel_dict[chrom][pos]\<close> is a flag that defaults to false.
\<close>

type_synonym snp_dict = "string \<Rightarrow> nat \<rightharpoonup> string"
type_synonym indel_dict = "string \<Rightarrow> nat \<Rightarrow> bool"

datatype error = IndexError | TypeError | AttributeError | AssertionError | ValueError

definition MAX_SEQS_PER_READ :: nat where
  "MAX_SEQS_PER_READ = 1024"

section \<open>Reverse complement\<close>

definition RC_TABLE :: "char \<rightharpoonup> char" where
  "RC_TABLE = [CHR ''A'' \<mapsto> CHR ''T'', CHR ''T'' \<mapsto> CHR ''A'',
               CHR ''C'' \<mapsto> CHR ''G'', CHR ''G'' \<mapsto> CHR ''C'']"

text \<open>
  \<^verbatim>\<open>str.translate\<close> with a table whose values are code points: a symbol with an entry
  is replaced, a symbol without one is kept.
\<close>

definition translate :: "(char \<rightharpoonup> char) \<Rightarrow> string \<Rightarrow> string" where
  "translate table s = map (\<lambda>c. case table c of None \<Rightarrow> c | Some c' \<Rightarrow> c') s"

definition reverse_complement :: "string \<Rightarrow> string" where
  "reverse_complement s = rev (translate RC_TABLE s)"

section \<open>The indel table\<close>

text \<open>
  \<^verbatim>\<open>get_indels\<close> flags a position when its allele string contains \<^verbatim>\<open>-\<close>, or when
  \<^verbatim>\<open>max(len(i) for i in alleles)\<close> exceeds one. \<^verbatim>\<open>alleles\<close> is a string, so each
  \<^verbatim>\<open>i\<close> is one of its symbols, a string of length one. Allele strings are the
  concatenation of two non-empty fields of a line, hence never empty.
\<close>

definition get_indels :: "snp_dict \<Rightarrow> indel_dict" where
  "get_indels snp_dict chrom ref_pos =
     (case snp_dict chrom ref_pos of
        None \<Rightarrow> False
      | Some alleles \<Rightarrow>
          CHR ''-'' \<in> set alleles \<or> 1 < fold max (map (\<lambda>i. length [i]) alleles) 0)"

section \<open>Candidate sequences of a single read\<close>

text \<open>\<^verbatim>\<open>reduce(mul, iterable, 1)\<close>\<close>

definition product :: "nat list \<Rightarrow> nat" where
  "product iterable = foldl (*) 1 iterable"

text \<open>\<^verbatim>\<open>seq[:read_pos] + new_allele + seq[read_pos+1:]\<close>: slices never raise.\<close>

definition substitute :: "nat \<Rightarrow> char \<Rightarrow> string \<Rightarrow> string" where
  "substitute read_pos new_allele s = take read_pos s @ [new_allele] @ drop (read_pos + 1) s"

text \<open>
  \<^verbatim>\<open>for seq in list(seqs): seqs.append(...)\<close>: the loop runs over a copy taken before
  the first append.
\<close>

definition append_substituted :: "nat \<Rightarrow> char \<Rightarrow> string list \<Rightarrow> string list" where
  "append_substituted read_pos new_allele seqs =
     foldl (\<lambda>acc s. acc @ [substitute read_pos new_allele s]) seqs seqs"

text \<open>\<^verbatim>\<open>for new_allele in snp_dict[chrom][ref_pos]\<close>, skipping the observed base.\<close>

primrec substitute_alleles :: "nat \<Rightarrow> char \<Rightarrow> string \<Rightarrow> string list \<Rightarrow> string list" where
  "substitute_alleles read_pos read_base [] seqs = seqs"
| "substitute_alleles read_pos read_base (new_allele # alleles) seqs =
     (if new_allele = read_base then substitute_alleles read_pos read_base alleles seqs
      else substitute_alleles read_pos read_base alleles
             (append_substituted read_pos new_allele seqs))"

text \<open>
  The loop of \<^verbatim>\<open>get_read_seqs\<close> over the aligned pairs, with the list \<^verbatim>\<open>seqs\<close> and the
  counter passed along. \<^verbatim>\<open>read.seq[read_pos]\<close> raises \<^verbatim>\<open>IndexError\<close> beyond the end of
  the sequence. The local \<^verbatim>\<open>num_snps\<close> is never read and is left out.
\<close>

fun get_read_seqs_loop ::
  "read \<Rightarrow> snp_dict \<Rightarrow> indel_dict \<Rightarrow> (nat \<times> nat option) list \<Rightarrow> string list \<Rightarrow> dispositions
   \<Rightarrow> error + (string list \<times> dispositions)"
where
  "get_read_seqs_loop rd snp_dict indel_dict [] seqs d =
     Inr (seqs, bump (if length seqs = 1 then no_snps else has_snps) d)"
| "get_read_seqs_loop rd snp_dict indel_dict ((read_pos, None) # rest) seqs d =
     get_read_seqs_loop rd snp_dict indel_dict rest seqs d"
| "get_read_seqs_loop rd snp_dict indel_dict ((read_pos, Some ref_pos) # rest) seqs d =
     (if indel_dict (reference_name rd) ref_pos then Inr ([], bump toss_indel d)
      else if MAX_SEQS_PER_READ < length seqs then Inr ([], bump toss_manysnps d)
      else (case snp_dict (reference_name rd) ref_pos of
              None \<Rightarrow> get_read_seqs_loop rd snp_dict indel_dict rest seqs d
            | Some alleles \<Rightarrow>
                if length (seq rd) \<le> read_pos then Inl IndexError
                else if seq rd ! read_pos \<in> set alleles
                then get_read_seqs_loop rd snp_dict indel_dict rest
                       (substitute_alleles read_pos (seq rd ! read_pos) alleles seqs)
                       (bump ref_match d)
                else get_read_seqs_loop rd snp_dict indel_dict rest seqs (bump no_match d)))"

definition get_read_seqs ::
  "read \<Rightarrow> snp_dict \<Rightarrow> indel_dict \<Rightarrow> dispositions \<Rightarrow> error + (string list \<times> dispositions)"
where
  "get_read_seqs rd snp_dict indel_dict d =
     get_read_seqs_loop rd snp_dict indel_dict (aligned_pairs rd) [seq rd] d"

section \<open>Candidate sequences of a mate pair\<close>

text \<open>
  The two loops that fill \<^verbatim>\<open>snps\<close> and \<^verbatim>\<open>read_posns\<close> differ only in the slot of
  \<^verbatim>\<open>read_posns[ref_pos]\<close> they assign: \<open>slot = False\<close> is index 0 (mate 1),
  \<open>slot = True\<close> index 1 (mate 2). \<^verbatim>\<open>snps\<close> is a dictionary read in insertion order:
  an association list, where assigning to a key already present keeps its place.
  \<^verbatim>\<open>read_posns\<close> is a \<^verbatim>\<open>defaultdict\<close> of \<^verbatim>\<open>[None, None]\<close>. The result \<open>None\<close> is
  the early return at an indel-flagged position. A reference offset \<^verbatim>\<open>None\<close> is no key
  of either table and is passed over.
\<close>

type_synonym overlaps = "(nat \<times> string) list \<times> (nat \<Rightarrow> nat option \<times> nat option)"

definition set_slot :: "bool \<Rightarrow> nat \<Rightarrow> nat option \<times> nat option \<Rightarrow> nat option \<times> nat option" where
  "set_slot slot read_pos entry =
     (if slot then (fst entry, Some read_pos) else (Some read_pos, snd entry))"

fun collect_overlaps ::
  "snp_dict \<Rightarrow> indel_dict \<Rightarrow> string \<Rightarrow> bool \<Rightarrow> (nat \<times> nat option) list \<Rightarrow> overlaps
   \<Rightarrow> overlaps option"
where
  "collect_overlaps snp_dict indel_dict chrom slot [] ov = Some ov"
| "collect_overlaps snp_dict indel_dict chrom slot ((read_pos, None) # rest) ov =
     collect_overlaps snp_dict indel_dict chrom slot rest ov"
| "collect_overlaps snp_dict indel_dict chrom slot ((read_pos, Some ref_pos) # rest) ov =
     (if indel_dict chrom ref_pos then None
      else (case snp_dict chrom ref_pos of
              None \<Rightarrow> collect_overlaps snp_dict indel_dict chrom slot rest ov
            | Some alleles \<Rightarrow>
                collect_overlaps snp_dict indel_dict chrom slot rest
                  (AList.update ref_pos alleles (fst ov),
                   (snd ov)(ref_pos := set_slot slot read_pos (snd ov ref_pos)))))"

text \<open>
  \<^verbatim>\<open>for seq1, seq2 in zip(seqs1, seqs2)\<close>: the loop variables are the function's own
  \<^verbatim>\<open>seq1\<close> and \<^verbatim>\<open>seq2\<close>, so each round rebinds them, and they keep the last pair
  after the loop. \<open>f1\<close> and \<open>f2\<close> are what a round appends to \<^verbatim>\<open>new_seqs1\<close> and
  \<^verbatim>\<open>new_seqs2\<close>.
\<close>

fun zip_loop ::
  "(string \<Rightarrow> string) \<Rightarrow> (string \<Rightarrow> string) \<Rightarrow> (string \<times> string) list
   \<Rightarrow> string \<Rightarrow> string \<Rightarrow> string list \<Rightarrow> string list
   \<Rightarrow> string \<times> string \<times> string list \<times> string list"
where
  "zip_loop f1 f2 [] seq1 seq2 new_seqs1 new_seqs2 = (seq1, seq2, new_seqs1, new_seqs2)"
| "zip_loop f1 f2 ((s1, s2) # rest) seq1 seq2 new_seqs1 new_seqs2 =
     zip_loop f1 f2 rest s1 s2 (new_seqs1 @ [f1 s1]) (new_seqs2 @ [f2 s2])"

text \<open>
  \<^verbatim>\<open>for allele in alleles\<close> in one of the three branches. The test that skips the
  observed base reads \<^verbatim>\<open>seq1[pos1]\<close> in the branch where mate 2 does not cover the
  position (\<open>use1 = True\<close>, \<open>p = pos1\<close>), and \<^verbatim>\<open>seq2[pos2]\<close> in the two others
  (\<open>use1 = False\<close>, \<open>p = pos2\<close>); it reads the current binding of the variable, and
  raises \<^verbatim>\<open>IndexError\<close> beyond its end. \<open>zs\<close> is \<^verbatim>\<open>zip(seqs1, seqs2)\<close>, which does
  not change before the end of the branch.
\<close>

fun allele_loop ::
  "bool \<Rightarrow> nat \<Rightarrow> (char \<Rightarrow> string \<Rightarrow> string) \<Rightarrow> (char \<Rightarrow> string \<Rightarrow> string)
   \<Rightarrow> (string \<times> string) list \<Rightarrow> string
   \<Rightarrow> string \<Rightarrow> string \<Rightarrow> string list \<Rightarrow> string list
   \<Rightarrow> error + (string \<times> string \<times> string list \<times> string list)"
where
  "allele_loop use1 p f1 f2 zs [] seq1 seq2 new_seqs1 new_seqs2 =
     Inr (seq1, seq2, new_seqs1, new_seqs2)"
| "allele_loop use1 p f1 f2 zs (allele # alleles) seq1 seq2 new_seqs1 new_seqs2 =
     (if length (if use1 then seq1 else seq2) \<le> p then Inl IndexError
      else if allele = (if use1 then seq1 else seq2) ! p
      then allele_loop use1 p f1 f2 zs alleles seq1 seq2 new_seqs1 new_seqs2
      else (case zip_loop (f1 allele) (f2 allele) zs seq1 seq2 new_seqs1 new_seqs2 of
              (seq1', seq2', new_seqs1', new_seqs2') \<Rightarrow>
                allele_loop use1 p f1 f2 zs alleles seq1' seq2' new_seqs1' new_seqs2'))"

text \<open>
  The body of \<^verbatim>\<open>for ref_pos in snps\<close>. The result \<open>Inr None\<close> is the return at a phase
  disagreement; otherwise the new bindings of \<^verbatim>\<open>seq1\<close>, \<^verbatim>\<open>seq2\<close> and the lists
  \<^verbatim>\<open>seqs1\<close>, \<^verbatim>\<open>seqs2\<close> extended by \<^verbatim>\<open>new_seqs1\<close>, \<^verbatim>\<open>new_seqs2\<close>. With neither offset
  present, \<^verbatim>\<open>seq2[pos2]\<close> would index by \<^verbatim>\<open>None\<close>, a \<^verbatim>\<open>TypeError\<close>, at the first allele.
\<close>

definition extend_seqs ::
  "string list \<Rightarrow> string list
   \<Rightarrow> error + (string \<times> string \<times> string list \<times> string list)
   \<Rightarrow> error + (string \<times> string \<times> string list \<times> string list) option"
where
  "extend_seqs seqs1 seqs2 r =
     (case r of
        Inl e \<Rightarrow> Inl e
      | Inr (seq1', seq2', new_seqs1, new_seqs2) \<Rightarrow>
          Inr (Some (seq1', seq2', seqs1 @ new_seqs1, seqs2 @ new_seqs2)))"

fun dual_position ::
  "nat option \<times> nat option \<Rightarrow> string \<Rightarrow> string \<Rightarrow> string \<Rightarrow> string list \<Rightarrow> string list
   \<Rightarrow> error + (string \<times> string \<times> string list \<times> string list) option"
where
  "dual_position (None, None) alleles seq1 seq2 seqs1 seqs2 =
     (if alleles = [] then Inr (Some (seq1, seq2, seqs1, seqs2)) else Inl TypeError)"
| "dual_position (None, Some pos2) alleles seq1 seq2 seqs1 seqs2 =
     extend_seqs seqs1 seqs2
       (allele_loop False pos2 (\<lambda>allele s. s) (substitute pos2)
          (zip seqs1 seqs2) alleles seq1 seq2 [] [])"
| "dual_position (Some pos1, None) alleles seq1 seq2 seqs1 seqs2 =
     extend_seqs seqs1 seqs2
       (allele_loop True pos1 (substitute pos1) (\<lambda>allele s. s)
          (zip seqs1 seqs2) alleles seq1 seq2 [] [])"
| "dual_position (Some pos1, Some pos2) alleles seq1 seq2 seqs1 seqs2 =
     (if length seq1 \<le> pos1 \<or> length seq2 \<le> pos2 then Inl IndexError
      else if seq1 ! pos1 \<noteq> seq2 ! pos2 then Inr None
      else extend_seqs seqs1 seqs2
             (allele_loop False pos2 (substitute pos1) (substitute pos2)
                (zip seqs1 seqs2) alleles seq1 seq2 [] []))"

fun dual_loop ::
  "(nat \<Rightarrow> nat option \<times> nat option) \<Rightarrow> (nat \<times> string) list
   \<Rightarrow> string \<Rightarrow> string \<Rightarrow> string list \<Rightarrow> string list \<Rightarrow> dispositions
   \<Rightarrow> error + ((string list \<times> string list) \<times> dispositions)"
where
  "dual_loop read_posns [] seq1 seq2 seqs1 seqs2 d =
     Inr ((seqs1, seqs2), bump (if length seqs1 = 1 then no_snps else has_snps) d)"
| "dual_loop read_posns ((ref_pos, alleles) # snps) seq1 seq2 seqs1 seqs2 d =
     (case dual_position (read_posns ref_pos) alleles seq1 seq2 seqs1 seqs2 of
        Inl e \<Rightarrow> Inl e
      | Inr None \<Rightarrow> Inr (([], []), bump toss_anomalous_phase d)
      | Inr (Some (seq1', seq2', seqs1', seqs2')) \<Rightarrow>
          dual_loop read_posns snps seq1' seq2' seqs1' seqs2' d)"

definition get_dual_read_seqs ::
  "read \<Rightarrow> read \<Rightarrow> snp_dict \<Rightarrow> indel_dict \<Rightarrow> dispositions
   \<Rightarrow> error + ((string list \<times> string list) \<times> dispositions)"
where
  "get_dual_read_seqs read1 read2 snp_dict indel_dict d =
     (case collect_overlaps snp_dict indel_dict (reference_name read1) False
             (aligned_pairs read1) ([], \<lambda>ref_pos. (None, None)) of
        None \<Rightarrow> Inr (([], []), bump toss_indel d)
      | Some ov1 \<Rightarrow>
          (case collect_overlaps snp_dict indel_dict (reference_name read1) True
                  (aligned_pairs read2) ov1 of
             None \<Rightarrow> Inr (([], []), bump toss_indel d)
           | Some (snps, read_posns) \<Rightarrow>
               if MAX_SEQS_PER_READ < product (map (\<lambda>(ref_pos, alleles). length alleles) snps)
               then Inr (([], []), bump toss_manysnps d)
               else dual_loop read_posns snps (seq read1) (seq read2)
                      [seq read1] [seq read2] d))"

section \<open>Triage and emission\<close>

text \<open>
  The output partitions are the lists of the records written to them, in order. A
  synthetic record is the identifier \<^verbatim>\<open>loc_line\<close>, kept as the five values it is
  formatted from, the sequence and the quality string.
\<close>

record loc_line =
  loc_remap_num :: nat
  loc_reference_name :: string
  loc_left_pos :: int
  loc_right_pos :: int
  loc_num_alt :: nat

record fastq_record =
  loc :: loc_line
  fq_seq :: string
  fq_qual :: string

record outputs =
  keep :: "read list"
  remap_bam :: "read list"
  dropped_bam :: "read list"
  fastqs :: "fastq_record list list"

definition fastq_write :: "loc_line \<Rightarrow> read \<Rightarrow> string \<Rightarrow> fastq_record" where
  "fastq_write l rd s =
     \<lparr>loc = l, fq_seq = (if is_reverse rd then reverse_complement s else s), fq_qual = qual rd\<rparr>"

text \<open>\<^verbatim>\<open>for seq, read, fastq in zip(read_seqs, reads, fastqs)\<close>: stops at the shortest.\<close>

fun write_combination ::
  "loc_line \<Rightarrow> string list \<Rightarrow> read list \<Rightarrow> fastq_record list list \<Rightarrow> fastq_record list list"
where
  "write_combination l (s # read_seqs) (rd # reads) (fastq # fqs) =
     (fastq @ [fastq_write l rd s]) # write_combination l read_seqs reads fqs"
| "write_combination l read_seqs reads fqs = fqs"

text \<open>
  \<^verbatim>\<open>for read_seqs in it.product(*seqs)\<close> with the first combination skipped.
  \<^verbatim>\<open>itertools.product\<close> varies the last list fastest, as \<^const>\<open>product_lists\<close> does.
\<close>

definition write_combinations ::
  "loc_line \<Rightarrow> string list list \<Rightarrow> read list \<Rightarrow> fastq_record list list \<Rightarrow> fastq_record list list"
where
  "write_combinations l seqs reads fqs =
     foldl (\<lambda>acc read_seqs. write_combination l read_seqs reads acc) fqs
       (drop 1 (product_lists seqs))"

text \<open>
  \<^verbatim>\<open>write_read_seqs\<close>. The sinks are part of \<open>out\<close>; \<open>dropped\<close> tells whether the
  caller passed the drop sink (\<^verbatim>\<open>dropped is not None\<close>). \<^verbatim>\<open>zip(*both_read_seqs)\<close>
  cannot be unpacked into two names when the list is empty. The identifier takes the
  chromosome from \<^verbatim>\<open>read\<close>, which the preceding loop left bound to the last record.
  The result is the new state of the sinks and the returned number.
\<close>

definition write_read_seqs ::
  "(read \<times> string list) list \<Rightarrow> outputs \<Rightarrow> bool \<Rightarrow> nat \<Rightarrow> error + (outputs \<times> nat)"
where
  "write_read_seqs both_read_seqs out dropped remap_num =
     (if both_read_seqs = [] then Inl ValueError
      else if length (map fst both_read_seqs) \<noteq> length (fastqs out) then Inl AssertionError
      else if product (map (\<lambda>r. length (snd r)) both_read_seqs) = 0
              \<or> MAX_SEQS_PER_READ < product (map (\<lambda>r. length (snd r)) both_read_seqs)
      then (if dropped
            then Inr (out\<lparr>dropped_bam := dropped_bam out @ map fst both_read_seqs\<rparr>, 0)
            else Inr (out, 0))
      else if product (map (\<lambda>r. length (snd r)) both_read_seqs) = 1
      then Inr (out\<lparr>keep := keep out @ map fst both_read_seqs\<rparr>, 0)
      else Inr (out\<lparr>remap_bam := remap_bam out @ map fst both_read_seqs,
                     fastqs :=
                       write_combinations
                         \<lparr>loc_remap_num = remap_num,
                          loc_reference_name = reference_name (last (map fst both_read_seqs)),
                          loc_left_pos = Min (set (map (\<lambda>r. pos (fst r)) both_read_seqs)),
                          loc_right_pos = Max (set (map (\<lambda>r. pos (fst r)) both_read_seqs)),
                          loc_num_alt = product (map (\<lambda>r. length (snd r)) both_read_seqs) - 1\<rparr>
                         (map snd both_read_seqs) (map fst both_read_seqs) (fastqs out)\<rparr>,
                1))"

text \<open>
  The state of the loop of \<^verbatim>\<open>assign_reads\<close>. \<^verbatim>\<open>unpaired_reads\<close> is a list of two
  dictionaries indexed by the booleans \<^verbatim>\<open>is_read2\<close> and \<^verbatim>\<open>is_read1\<close>: \<open>False\<close> is
  index 0, \<open>True\<close> index 1.
\<close>

record run =
  sinks :: outputs
  unpaired_reads :: "bool \<Rightarrow> string \<rightharpoonup> read"
  read_results :: dispositions
  remap_num :: nat

definition initial_run :: "bool \<Rightarrow> run" where
  "initial_run is_paired =
     \<lparr>sinks = \<lparr>keep = [], remap_bam = [], dropped_bam = [],
               fastqs = (if is_paired then [[], []] else [[]])\<rparr>,
      unpaired_reads = (\<lambda>slot. Map.empty),
      read_results = (\<lambda>k. 0),
      remap_num = 1\<rparr>"

text \<open>
  One round of the loop over the input records. In the single-end call
  \<^verbatim>\<open>write_read_seqs\<close> gets neither the drop sink nor the counter (its defaults are
  \<^verbatim>\<open>None\<close> and 0) and its result is not used. \<^verbatim>\<open>both_reads\<close> starts as
  \<^verbatim>\<open>[None, None]\<close>; reading \<^verbatim>\<open>.seq\<close> of an entry still \<^verbatim>\<open>None\<close> is an
  \<^verbatim>\<open>AttributeError\<close>.
\<close>

definition assign_read :: "snp_dict \<Rightarrow> indel_dict \<Rightarrow> bool \<Rightarrow> read \<Rightarrow> run \<Rightarrow> error + run" where
  "assign_read snp_dict indel_dict is_paired rd st =
     (if \<not> is_paired then
        (case get_read_seqs rd snp_dict indel_dict (read_results st) of
           Inl e \<Rightarrow> Inl e
         | Inr (read_seqs, d) \<Rightarrow>
             (case write_read_seqs [(rd, read_seqs)] (sinks st) False 0 of
                Inl e \<Rightarrow> Inl e
              | Inr (out, n) \<Rightarrow> Inr (st\<lparr>sinks := out, read_results := d\<rparr>)))
      else if is_proper_pair rd then
        (case unpaired_reads st (is_read1 rd) (qname rd) of
           Some other \<Rightarrow>
             (case (((\<lambda>slot. None)(is_read2 rd := Some rd))(is_read1 rd := Some other)) False of
                None \<Rightarrow> Inl AttributeError
              | Some read1 \<Rightarrow>
                  (case (((\<lambda>slot. None)(is_read2 rd := Some rd))(is_read1 rd := Some other)) True of
                     None \<Rightarrow> Inl AttributeError
                   | Some read2 \<Rightarrow>
                       (case get_dual_read_seqs read1 read2 snp_dict indel_dict (read_results st) of
                          Inl e \<Rightarrow> Inl e
                        | Inr ((seqs1, seqs2), d) \<Rightarrow>
                            (case write_read_seqs [(read1, seqs1), (read2, seqs2)] (sinks st) True
                                    (remap_num st) of
                               Inl e \<Rightarrow> Inl e
                             | Inr (out, n) \<Rightarrow>
                                 Inr (st\<lparr>sinks := out,
                                         unpaired_reads :=
                                           (unpaired_reads st)
                                             (is_read1 rd := (unpaired_reads st (is_read1 rd))
                                                               (qname rd := None)),
                                         read_results := d,
                                         remap_num := remap_num st + n\<rparr>)))))
         | None \<Rightarrow>
             Inr (st\<lparr>unpaired_reads :=
                       (unpaired_reads st)
                         (is_read2 rd := (unpaired_reads st (is_read2 rd))(qname rd \<mapsto> rd))\<rparr>))
      else Inr (st\<lparr>read_results := bump not_proper_pair (read_results st)\<rparr>))"

fun assign_reads_loop ::
  "snp_dict \<Rightarrow> indel_dict \<Rightarrow> bool \<Rightarrow> read list \<Rightarrow> run \<Rightarrow> error + run"
where
  "assign_reads_loop snp_dict indel_dict is_paired [] st = Inr st"
| "assign_reads_loop snp_dict indel_dict is_paired (rd # insam) st =
     (case assign_read snp_dict indel_dict is_paired rd st of
        Inl e \<Rightarrow> Inl e
      | Inr st' \<Rightarrow> assign_reads_loop snp_dict indel_dict is_paired insam st')"

definition assign_reads :: "read list \<Rightarrow> snp_dict \<Rightarrow> indel_dict \<Rightarrow> bool \<Rightarrow> error + run" where
  "assign_reads insam snp_dict indel_dict is_paired =
     assign_reads_loop snp_dict indel_dict is_paired insam (initial_run is_paired)"

section \<open>Notions used in the statements\<close>

text \<open>
  A candidate list is in order when it is not empty, starts with the original sequence
  and holds only sequences of the original's length.
\<close>

definition cand_ok :: "string \<Rightarrow> string list \<Rightarrow> bool" where
  "cand_ok orig seqs = (seqs \<noteq> [] \<and> seqs ! 0 = orig \<and> (\<forall>s \<in> set seqs. length s = length orig))"

text \<open>Sample data for the closed instances below.\<close>

definition example_snps :: snp_dict where
  "example_snps = (\<lambda>chrom. Map.empty)(''chr1'' := [12 \<mapsto> ''AG'', 14 \<mapsto> ''CT'', 20 \<mapsto> ''A-''])"

definition example_read :: "string \<Rightarrow> string \<Rightarrow> nat \<Rightarrow> bool \<Rightarrow> bool \<Rightarrow> read" where
  "example_read name s p rv second =
     \<lparr>qname = name, seq = s, qual = replicate (length s) (CHR ''I''), reference_name = ''chr1'',
      pos = int p, is_reverse = rv, is_read1 = \<not> second, is_read2 = second,
      is_proper_pair = True,
      aligned_pairs = map (\<lambda>i. (i, Some (p + i))) [0..<length s]\<rparr>"


section \<open>Properties of the reverse complement\<close>

lemma RC_TABLE_twice:
  "(case RC_TABLE (case RC_TABLE c of None \<Rightarrow> c | Some c' \<Rightarrow> c') of None \<Rightarrow> (case RC_TABLE c of None \<Rightarrow> c | Some c' \<Rightarrow> c') | Some c'' \<Rightarrow> c'') = c"
  by (simp add: RC_TABLE_def)

lemma translate_RC_TABLE_twice: "translate RC_TABLE (translate RC_TABLE s) = s"
  by (induction s) (simp_all add: translate_def RC_TABLE_twice)

lemma translate_rev: "translate t (rev s) = rev (translate t s)"
  by (simp add: translate_def rev_map)

text \<open>
  Claim C10. \<^verbatim>\<open>reverse_complement\<close> is an involution on every string, whatever its
  symbols: applying it twice gives the string back. A symbol without an entry in
  \<^verbatim>\<open>RC_TABLE\<close> is its own complement.
\<close>

theorem reverse_complement_involution:
  "reverse_complement (reverse_complement s) = s
   \<and> (\<forall>c. RC_TABLE c = None \<longrightarrow> reverse_complement [c] = [c])"
  by (simp add: reverse_complement_def translate_rev translate_RC_TABLE_twice)
     (simp add: translate_def)

theorem reverse_complement_involution_witness:
  "reverse_complement (reverse_complement ''GATNTACA'') = ''GATNTACA''
   \<and> RC_TABLE (CHR ''N'') = None \<and> reverse_complement ''N'' = ''N''"
  using reverse_complement_involution [of "''GATNTACA''"]
  by (simp add: RC_TABLE_def)

section \<open>The shape of candidate lists\<close>


lemma product_prod_list: "product xs = prod_list xs"
proof -
  have "foldl (*) a xs = a * prod_list xs" for a :: nat
    by (induction xs arbitrary: a) (simp_all add: mult.assoc)
  then show ?thesis by (simp add: product_def)
qed

lemma foldl_snoc_map: "foldl (\<lambda>acc s. acc @ [f s]) acc xs = acc @ map f xs"
  by (induction xs arbitrary: acc) simp_all

lemma append_substituted_map:
  "append_substituted read_pos a seqs = seqs @ map (substitute read_pos a) seqs"
  by (simp add: append_substituted_def foldl_snoc_map)

lemma length_substitute: "p < length s \<Longrightarrow> length (substitute p a s) = length s"
  by (simp add: substitute_def)

lemma substitute_nth_other: "q \<noteq> p \<Longrightarrow> p < length s \<Longrightarrow> substitute p a s ! q = s ! q"
  by (auto simp: substitute_def nth_append min_def nth_Cons')

lemma substitute_nth_same: "p < length s \<Longrightarrow> substitute p a s ! p = a"
  by (simp add: substitute_def nth_append)

lemma cand_ok_substitute_alleles:
  "cand_ok orig seqs \<Longrightarrow> p < length orig \<Longrightarrow> cand_ok orig (substitute_alleles p b alleles seqs)"
proof (induction alleles arbitrary: seqs)
  case Nil
  then show ?case by simp
next
  case (Cons a alleles)
  have "cand_ok orig (append_substituted p a seqs)"
    using Cons.prems
    by (auto simp: cand_ok_def append_substituted_map nth_append length_substitute)
  with Cons show ?case by simp
qed

lemma get_read_seqs_loop_cand_ok:
  "get_read_seqs_loop rd snp_dict indel_dict ps seqs d = Inr (res, d') \<Longrightarrow>
   cand_ok (seq rd) seqs \<Longrightarrow> res = [] \<or> cand_ok (seq rd) res"
proof (induction rd snp_dict indel_dict ps seqs d rule: get_read_seqs_loop.induct)
  case (1 rd snp_dict indel_dict seqs d)
  then show ?case by simp
next
  case (2 rd snp_dict indel_dict read_pos rest seqs d)
  then show ?case by simp
next
  case (3 rd snp_dict indel_dict read_pos ref_pos rest seqs d)
  then show ?case
    by (auto split: if_splits option.splits simp: cand_ok_substitute_alleles)
qed


lemma zip_loop_eq:
  "zip_loop f1 f2 zs seq1 seq2 new1 new2 =
     (if zs = [] then seq1 else fst (last zs), if zs = [] then seq2 else snd (last zs),
      new1 @ map (\<lambda>z. f1 (fst z)) zs, new2 @ map (\<lambda>z. f2 (snd z)) zs)"
  by (induction f1 f2 zs seq1 seq2 new1 new2 rule: zip_loop.induct) auto

lemma zip_loop_cur:
  assumes "zip_loop f1 f2 zs seq1 seq2 new1 new2 = (s1, s2, n1', n2')"
  shows "(s1 = seq1 \<and> s2 = seq2) \<or> (s1, s2) \<in> set zs"
    and "n1' = new1 @ map (\<lambda>z. f1 (fst z)) zs" and "n2' = new2 @ map (\<lambda>z. f2 (snd z)) zs"
proof -
  show "(s1 = seq1 \<and> s2 = seq2) \<or> (s1, s2) \<in> set zs"
  proof (cases "zs = []")
    case True
    with assms show ?thesis by simp
  next
    case False
    then have "last zs \<in> set zs" by simp
    moreover have "(s1, s2) = last zs" using assms False by (auto simp: zip_loop_eq prod_eq_iff)
    ultimately show ?thesis by simp
  qed
  show "n1' = new1 @ map (\<lambda>z. f1 (fst z)) zs" "n2' = new2 @ map (\<lambda>z. f2 (snd z)) zs"
    using assms by (simp_all add: zip_loop_eq)
qed

lemma allele_loop_pres:
  assumes "allele_loop use1 p f1 f2 zs alleles seq1 seq2 new1 new2 = Inr (seq1', seq2', new1', new2')"
    and "P1 seq1" "P2 seq2" "\<forall>z \<in> set zs. P1 (fst z) \<and> P2 (snd z)"
    and "\<forall>s \<in> set new1. P1 s" "\<forall>s \<in> set new2. P2 s"
    and "\<And>s. P1 s \<Longrightarrow> length s = n1" "\<And>s. P2 s \<Longrightarrow> length s = n2"
    and "\<And>a s. p < (if use1 then n1 else n2) \<Longrightarrow> P1 s \<Longrightarrow> P1 (f1 a s)"
    and "\<And>a s. p < (if use1 then n1 else n2) \<Longrightarrow> P2 s \<Longrightarrow> P2 (f2 a s)"
  shows "P1 seq1' \<and> P2 seq2' \<and> (\<forall>s \<in> set new1'. P1 s) \<and> (\<forall>s \<in> set new2'. P2 s)"
  using assms(1-6)
proof (induction alleles arbitrary: seq1 seq2 new1 new2)
  case Nil
  then show ?case by simp
next
  case (Cons a alleles)
  have len: "length (if use1 then seq1 else seq2) = (if use1 then n1 else n2)"
    using Cons.prems(2,3) assms(7,8) by simp
  show ?case
  proof (cases "a = (if use1 then seq1 else seq2) ! p")
    case True
    with Cons.prems len have "allele_loop use1 p f1 f2 zs alleles seq1 seq2 new1 new2 = Inr (seq1', seq2', new1', new2')"
      by (simp split: if_splits)
    from Cons.IH[OF this Cons.prems(2-6)] show ?thesis .
  next
    case False
    from Cons.prems(1) have g: "p < (if use1 then n1 else n2)"
      using len by (auto split: if_splits)
    obtain s1 s2 n1' n2' where z: "zip_loop (f1 a) (f2 a) zs seq1 seq2 new1 new2 = (s1, s2, n1', n2')"
      by (metis prod_cases4)
    with Cons.prems(1) False g len
    have rec: "allele_loop use1 p f1 f2 zs alleles s1 s2 n1' n2' = Inr (seq1', seq2', new1', new2')"
      by (auto split: if_splits)
    have zs1: "\<And>x. x \<in> set zs \<Longrightarrow> P1 (fst x)" and zs2: "\<And>x. x \<in> set zs \<Longrightarrow> P2 (snd x)"
      using Cons.prems(4) by auto
    have "P1 s1" "P2 s2"
      using zip_loop_cur(1)[OF z] Cons.prems(2,3) zs1 zs2 by auto
    moreover have "\<forall>s \<in> set n1'. P1 s"
      using zip_loop_cur(2)[OF z] Cons.prems(5) zs1 assms(9)[OF g] by auto
    moreover have "\<forall>s \<in> set n2'. P2 s"
      using zip_loop_cur(3)[OF z] Cons.prems(6) zs2 assms(10)[OF g] by auto
    ultimately have "P1 s1" "P2 s2" "\<forall>s \<in> set n1'. P1 s" "\<forall>s \<in> set n2'. P2 s"
      by auto
    from Cons.IH[OF rec this(1,2) Cons.prems(4) this(3,4)] show ?thesis .
  qed
qed

lemma allele_loop_total:
  assumes "P1 seq1" "P2 seq2" "\<forall>z \<in> set zs. P1 (fst z) \<and> P2 (snd z)"
    and "\<And>s. P1 s \<Longrightarrow> length s = n1" "\<And>s. P2 s \<Longrightarrow> length s = n2"
    and "p < (if use1 then n1 else n2)"
  shows "\<exists>r. allele_loop use1 p f1 f2 zs alleles seq1 seq2 new1 new2 = Inr r"
  using assms(1-3)
proof (induction alleles arbitrary: seq1 seq2 new1 new2)
  case Nil
  then show ?case by simp
next
  case (Cons a alleles)
  have len: "length (if use1 then seq1 else seq2) = (if use1 then n1 else n2)"
    using Cons.prems(1,2) assms(4,5) by simp
  obtain s1 s2 n1' n2' where z: "zip_loop (f1 a) (f2 a) zs seq1 seq2 new1 new2 = (s1, s2, n1', n2')"
    by (metis prod_cases4)
  have "P1 s1" "P2 s2"
    using zip_loop_cur(1)[OF z] Cons.prems by auto
  from Cons.IH[OF this Cons.prems(3)] Cons.IH[OF Cons.prems]
  show ?case using z len assms(6) by (auto simp del: zip_loop.simps)
qed

lemma allele_loop_new_length:
  assumes "allele_loop use1 p f1 f2 zs alleles seq1 seq2 new1 new2 = Inr (seq1', seq2', new1', new2')"
    and "length new1 = length new2"
  shows "length new1' = length new2'"
  using assms
proof (induction alleles arbitrary: seq1 seq2 new1 new2)
  case Nil
  then show ?case by simp
next
  case (Cons a alleles)
  then show ?case
    by (auto simp: zip_loop_eq split: if_splits)
qed



lemma set_zip_P:
  "\<forall>s \<in> set xs. P1 s \<Longrightarrow> \<forall>s \<in> set ys. P2 s \<Longrightarrow> \<forall>z \<in> set (zip xs ys). P1 (fst z) \<and> P2 (snd z)"
  by (auto dest: set_zip_leftD set_zip_rightD)

lemma extend_seqs_Some:
  "extend_seqs seqs1 seqs2 r = Inr (Some (seq1', seq2', seqs1', seqs2')) \<Longrightarrow>
   \<exists>new1 new2. r = Inr (seq1', seq2', new1, new2) \<and> seqs1' = seqs1 @ new1 \<and> seqs2' = seqs2 @ new2"
  by (auto simp: extend_seqs_def split: sum.splits)

lemma dual_position_pres:
  assumes res: "dual_position posn alleles seq1 seq2 seqs1 seqs2 = Inr (Some (seq1', seq2', seqs1', seqs2'))"
    and P: "P1 seq1" "P2 seq2" "\<forall>s \<in> set seqs1. P1 s" "\<forall>s \<in> set seqs2. P2 s"
    and len: "\<And>s. P1 s \<Longrightarrow> length s = n1" "\<And>s. P2 s \<Longrightarrow> length s = n2"
    and pres1: "\<And>q a s. fst posn = Some q \<Longrightarrow> q < n1 \<Longrightarrow> P1 s \<Longrightarrow> P1 (substitute q a s)"
    and pres2: "\<And>q a s. snd posn = Some q \<Longrightarrow> q < n2 \<Longrightarrow> P2 s \<Longrightarrow> P2 (substitute q a s)"
  shows "P1 seq1' \<and> P2 seq2' \<and> (\<forall>s \<in> set seqs1'. P1 s) \<and> (\<forall>s \<in> set seqs2'. P2 s)
         \<and> (\<exists>t. seqs1' = seqs1 @ t) \<and> (\<exists>t. seqs2' = seqs2 @ t)"
proof -
  note zs = set_zip_P[OF P(3,4)]
  have emp1: "\<forall>s \<in> set ([]::string list). P1 s" and emp2: "\<forall>s \<in> set ([]::string list). P2 s"
    by simp_all
  obtain o1 o2 where posn: "posn = (o1, o2)" by (cases posn)
  show ?thesis
  proof (cases o1)
    case None
    note o1 = None
    show ?thesis
    proof (cases o2)
      case None
      with o1 posn res P show ?thesis by (auto split: if_splits)
    next
      case (Some pos2)
      from res posn o1 Some obtain new1 new2 where
        al: "allele_loop False pos2 (\<lambda>allele s. s) (substitute pos2) (zip seqs1 seqs2) alleles seq1 seq2 [] []
             = Inr (seq1', seq2', new1, new2)"
        and ext: "seqs1' = seqs1 @ new1" "seqs2' = seqs2 @ new2"
        by (auto dest: extend_seqs_Some)
      have "P1 seq1' \<and> P2 seq2' \<and> (\<forall>s \<in> set new1. P1 s) \<and> (\<forall>s \<in> set new2. P2 s)"
        by (rule allele_loop_pres[OF al P(1,2) zs emp1 emp2 len])
           (use pres2 posn Some in auto)
      with ext P show ?thesis by auto
    qed
  next
    case (Some pos1)
    note o1 = Some
    show ?thesis
    proof (cases o2)
      case None
      from res posn o1 None obtain new1 new2 where
        al: "allele_loop True pos1 (substitute pos1) (\<lambda>allele s. s) (zip seqs1 seqs2) alleles seq1 seq2 [] []
             = Inr (seq1', seq2', new1, new2)"
        and ext: "seqs1' = seqs1 @ new1" "seqs2' = seqs2 @ new2"
        by (auto dest: extend_seqs_Some)
      have "P1 seq1' \<and> P2 seq2' \<and> (\<forall>s \<in> set new1. P1 s) \<and> (\<forall>s \<in> set new2. P2 s)"
        by (rule allele_loop_pres[OF al P(1,2) zs emp1 emp2 len])
           (use pres1 posn o1 in auto)
      with ext P show ?thesis by auto
    next
      case (Some pos2)
      from res posn o1 Some have rng: "pos1 < length seq1" "pos2 < length seq2"
        by (auto split: if_splits)
      then have rng': "pos1 < n1" "pos2 < n2" using len P(1,2) by auto
      from res posn o1 Some rng obtain new1 new2 where
        al: "allele_loop False pos2 (substitute pos1) (substitute pos2) (zip seqs1 seqs2) alleles seq1 seq2 [] []
             = Inr (seq1', seq2', new1, new2)"
        and ext: "seqs1' = seqs1 @ new1" "seqs2' = seqs2 @ new2"
        by (auto split: if_splits dest: extend_seqs_Some)
      have "P1 seq1' \<and> P2 seq2' \<and> (\<forall>s \<in> set new1. P1 s) \<and> (\<forall>s \<in> set new2. P2 s)"
        by (rule allele_loop_pres[OF al P(1,2) zs emp1 emp2 len])
           (use pres1 pres2 posn o1 Some rng' in auto)
      with ext P show ?thesis by auto
    qed
  qed
qed

lemma cand_ok_append:
  "cand_ok orig seqs \<Longrightarrow> \<forall>s \<in> set (seqs @ t). length s = length orig \<Longrightarrow> cand_ok orig (seqs @ t)"
  by (auto simp: cand_ok_def nth_append)

lemma dual_loop_cand_ok:
  assumes "dual_loop read_posns snps seq1 seq2 seqs1 seqs2 d = Inr ((res1, res2), d')"
    and "length seq1 = length orig1" "length seq2 = length orig2"
    and "cand_ok orig1 seqs1" "cand_ok orig2 seqs2"
  shows "(res1 = [] \<or> cand_ok orig1 res1) \<and> (res2 = [] \<or> cand_ok orig2 res2)"
  using assms
proof (induction snps arbitrary: seq1 seq2 seqs1 seqs2)
  case Nil
  then show ?case by simp
next
  case (Cons x snps)
  obtain ref_pos alleles where x: "x = (ref_pos, alleles)" by (cases x)
  show ?case
  proof (cases "dual_position (read_posns ref_pos) alleles seq1 seq2 seqs1 seqs2")
    case (Inl e)
    with Cons.prems(1) x show ?thesis by simp
  next
    case (Inr r)
    show ?thesis
    proof (cases r)
      case None
      with Inr Cons.prems(1) x show ?thesis by simp
    next
      case (Some st)
      obtain seq1' seq2' seqs1' seqs2' where st: "st = (seq1', seq2', seqs1', seqs2')"
        by (cases st) auto
      have dp: "dual_position (read_posns ref_pos) alleles seq1 seq2 seqs1 seqs2
                = Inr (Some (seq1', seq2', seqs1', seqs2'))"
        using Inr Some st by simp
      have l1: "\<forall>s \<in> set seqs1. length s = length orig1" and l2: "\<forall>s \<in> set seqs2. length s = length orig2"
        using Cons.prems(4,5) by (simp_all add: cand_ok_def)
      have pres: "length seq1' = length orig1 \<and> length seq2' = length orig2
            \<and> (\<forall>s \<in> set seqs1'. length s = length orig1) \<and> (\<forall>s \<in> set seqs2'. length s = length orig2)
            \<and> (\<exists>t. seqs1' = seqs1 @ t) \<and> (\<exists>t. seqs2' = seqs2 @ t)"
      proof (rule dual_position_pres[OF dp, where ?P1.0 = "\<lambda>s. length s = length orig1"
              and ?P2.0 = "\<lambda>s. length s = length orig2" and ?n1.0 = "length orig1" and ?n2.0 = "length orig2"])
        show "length seq1 = length orig1" by (rule Cons.prems(2))
        show "length seq2 = length orig2" by (rule Cons.prems(3))
        show "\<forall>s \<in> set seqs1. length s = length orig1" by (rule l1)
        show "\<forall>s \<in> set seqs2. length s = length orig2" by (rule l2)
      qed (simp_all add: length_substitute)
      from pres obtain t1 t2 where t: "seqs1' = seqs1 @ t1" "seqs2' = seqs2 @ t2" by blast
      have ok: "cand_ok orig1 seqs1'" "cand_ok orig2 seqs2'"
        using cand_ok_append[OF Cons.prems(4), of t1] cand_ok_append[OF Cons.prems(5), of t2] pres t
        by simp_all
      have "dual_loop read_posns snps seq1' seq2' seqs1' seqs2' d = Inr ((res1, res2), d')"
        using Cons.prems(1) x dp by simp
      from Cons.IH[OF this _ _ ok] pres show ?thesis by blast
    qed
  qed
qed

lemma get_dual_read_seqs_cand_ok:
  assumes "get_dual_read_seqs read1 read2 snp_dict indel_dict d = Inr ((seqs1, seqs2), d')"
  shows "(seqs1 = [] \<or> cand_ok (seq read1) seqs1) \<and> (seqs2 = [] \<or> cand_ok (seq read2) seqs2)"
proof -
  have init: "cand_ok (seq read1) [seq read1]" "cand_ok (seq read2) [seq read2]"
    by (simp_all add: cand_ok_def)
  show ?thesis
  proof (cases "collect_overlaps snp_dict indel_dict (reference_name read1) False
             (aligned_pairs read1) ([], \<lambda>ref_pos. (None, None))")
    case None
    with assms show ?thesis by (simp add: get_dual_read_seqs_def)
  next
    case (Some ov1)
    note s1 = Some
    show ?thesis
    proof (cases "collect_overlaps snp_dict indel_dict (reference_name read1) True
                  (aligned_pairs read2) ov1")
      case None
      with s1 assms show ?thesis by (simp add: get_dual_read_seqs_def)
    next
      case (Some ov)
      obtain snps read_posns where ov: "ov = (snps, read_posns)" by (cases ov)
      show ?thesis
      proof (cases "MAX_SEQS_PER_READ < product (map (\<lambda>(ref_pos, alleles). length alleles) snps)")
        case True
        with s1 Some ov assms show ?thesis by (simp add: get_dual_read_seqs_def)
      next
        case False
        with s1 Some ov assms
        have "dual_loop read_posns snps (seq read1) (seq read2) [seq read1] [seq read2] d
              = Inr ((seqs1, seqs2), d')"
          by (simp add: get_dual_read_seqs_def)
        from dual_loop_cand_ok[OF this refl refl init] show ?thesis .
      qed
    qed
  qed
qed


lemmas ex_simps = example_snps_def example_read_def get_indels_def MAX_SEQS_PER_READ_def
  append_substituted_def substitute_def get_read_seqs_def get_dual_read_seqs_def
  product_def extend_seqs_def set_slot_def upt_rec


text \<open>
  Claim C8. A candidate list that a generator returns and that is not empty starts with
  the original sequence of its read, and all its entries are as long as that sequence;
  for a pair this holds for the list of each mate.
\<close>

theorem candidate_lists_start_with_original:
  "(get_read_seqs rd snp_dict indel_dict d = Inr (seqs, d') \<longrightarrow> seqs \<noteq> [] \<longrightarrow>
      seqs ! 0 = seq rd \<and> (\<forall>s \<in> set seqs. length s = length (seq rd)))
   \<and> (get_dual_read_seqs read1 read2 snp_dict indel_dict d = Inr ((seqs1, seqs2), d'') \<longrightarrow>
        (seqs1 \<noteq> [] \<longrightarrow>
           seqs1 ! 0 = seq read1 \<and> (\<forall>s \<in> set seqs1. length s = length (seq read1)))
        \<and> (seqs2 \<noteq> [] \<longrightarrow>
           seqs2 ! 0 = seq read2 \<and> (\<forall>s \<in> set seqs2. length s = length (seq read2))))"
proof -
  have init: "cand_ok (seq rd) [seq rd]" by (simp add: cand_ok_def)
  have "seqs = [] \<or> cand_ok (seq rd) seqs"
    if "get_read_seqs rd snp_dict indel_dict d = Inr (seqs, d')"
    using get_read_seqs_loop_cand_ok[OF that[unfolded get_read_seqs_def] init] .
  moreover have "(seqs1 = [] \<or> cand_ok (seq read1) seqs1) \<and> (seqs2 = [] \<or> cand_ok (seq read2) seqs2)"
    if "get_dual_read_seqs read1 read2 snp_dict indel_dict d = Inr ((seqs1, seqs2), d'')"
    using get_dual_read_seqs_cand_ok[OF that] .
  ultimately show ?thesis by (auto simp: cand_ok_def)
qed

theorem candidate_lists_start_with_original_witness:
  "get_read_seqs (example_read ''r'' ''TTATT'' 10 False False) example_snps
       (get_indels example_snps) (\<lambda>k. 0)
     = Inr ([''TTATT'', ''TTGTT'', ''TTATC'', ''TTGTC''],
            bump has_snps (bump ref_match (bump ref_match (\<lambda>k. 0))))
   \<and> get_dual_read_seqs (example_read ''r'' ''TTATC'' 10 False False)
       (example_read ''r'' ''ATCGG'' 12 True True) example_snps (get_indels example_snps) (\<lambda>k. 0)
     = Inr (([''TTATC'', ''TTGTC'', ''TTATT'', ''TTGTT''],
             [''ATCGG'', ''GTCGG'', ''ATTGG'', ''GTTGG'']), bump has_snps (\<lambda>k. 0))
   \<and> [''TTATT'', ''TTGTT'', ''TTATC'', ''TTGTC''] ! 0
       = seq (example_read ''r'' ''TTATT'' 10 False False)
   \<and> [''ATCGG'', ''GTCGG'', ''ATTGG'', ''GTTGG''] ! 0
       = seq (example_read ''r'' ''ATCGG'' 12 True True)"
proof -
  have a: "get_read_seqs (example_read ''r'' ''TTATT'' 10 False False) example_snps
       (get_indels example_snps) (\<lambda>k. 0)
     = Inr ([''TTATT'', ''TTGTT'', ''TTATC'', ''TTGTC''],
            bump has_snps (bump ref_match (bump ref_match (\<lambda>k. 0))))"
    by (simp add: ex_simps)
  have b: "get_dual_read_seqs (example_read ''r'' ''TTATC'' 10 False False)
       (example_read ''r'' ''ATCGG'' 12 True True) example_snps (get_indels example_snps) (\<lambda>k. 0)
     = Inr (([''TTATC'', ''TTGTC'', ''TTATT'', ''TTGTT''],
             [''ATCGG'', ''GTCGG'', ''ATTGG'', ''GTTGG'']), bump has_snps (\<lambda>k. 0))"
    by (simp add: ex_simps)
  from candidate_lists_start_with_original
    [of "example_read ''r'' ''TTATT'' 10 False False" example_snps "get_indels example_snps"
        "\<lambda>k. 0" "[''TTATT'', ''TTGTT'', ''TTATC'', ''TTGTC'']"
        "bump has_snps (bump ref_match (bump ref_match (\<lambda>k. 0)))"
        "example_read ''r'' ''TTATC'' 10 False False" "example_read ''r'' ''ATCGG'' 12 True True"
        "[''TTATC'', ''TTGTC'', ''TTATT'', ''TTGTT'']" "[''ATCGG'', ''GTCGG'', ''ATTGG'', ''GTTGG'']"
        "bump has_snps (\<lambda>k. 0)"]
  show ?thesis using a b by simp
qed

end
